theory Spec2Isabelle
  imports Main "HOL-Library.Sublist"
begin

section \<open>Data model of worker/handler.go\<close>

text \<open>
  Go error values. \<open>ErrorString\<close> is a leaf error (errors.New, or fmt.Errorf without
  the verb w); \<open>WrapError\<close> is what fmt.Errorf builds for a format with the verb w: a
  message and the wrapped operand, which is absent when the operand was a nil error.
\<close>

datatype error = ErrorString string | WrapError string "error option"

fun Error_msg :: "error \<Rightarrow> string" where
  "Error_msg (ErrorString s) = s"
| "Error_msg (WrapError s _) = s"

fun Unwrap :: "error \<Rightarrow> error option" where
  "Unwrap (ErrorString _) = None"
| "Unwrap (WrapError _ e) = e"

text \<open>
  An io.ReadCloser as the handler sees it: the identity of the stream, and what
  io.ReadAll yields on it (the read failure, or the bytes).
\<close>

record ReadCloser =
  stream_id :: nat
  ReadAll :: "error + string"

record Response =
  StatusCode :: int
  Body :: ReadCloser

text \<open>The pair a single attempt returns: both components are nilable in Go.\<close>

type_synonym outcome = "Response option \<times> error option"

text \<open>
  The observable effects, in program order: a call of the attempt function with what it
  returned, a sleep (nanoseconds, as time.Duration), the closing of a body, a complete
  read of a body, and a line printed.
\<close>

datatype event =
    Called outcome
  | Sleep int
  | Close nat
  | Read nat
  | Printf string

text \<open>
  The world: the private state of the attempt function (a closure in Go) and the log
  of effects so far.
\<close>

record 's world =
  fn_state :: 's
  trace :: "event list"

definition emit :: "event \<Rightarrow> 's world \<Rightarrow> 's world" where
  "emit ev w = w\<lparr>trace := trace w @ [ev]\<rparr>"

definition call :: "('s \<Rightarrow> outcome \<times> 's) \<Rightarrow> 's world \<Rightarrow> outcome \<times> 's world" where
  "call fn w =
     (case fn (fn_state w) of
        (oc, s') \<Rightarrow> (oc, \<lparr>fn_state = s', trace = trace w @ [Called oc]\<rparr>))"

fun is_call :: "event \<Rightarrow> bool" where
  "is_call (Called _) = True"
| "is_call _ = False"

definition attempts :: "event list \<Rightarrow> nat" where
  "attempts evs = length (filter is_call evs)"

fun sleeps :: "event list \<Rightarrow> int list" where
  "sleeps [] = []"
| "sleeps (Sleep d # evs) = d # sleeps evs"
| "sleeps (_ # evs) = sleeps evs"

text \<open>The outcomes that the calls of a log returned, in order.\<close>

fun calls :: "event list \<Rightarrow> outcome list" where
  "calls [] = []"
| "calls (Called oc # evs) = oc # calls evs"
| "calls (_ # evs) = calls evs"

section \<open>Constants and machine arithmetic\<close>

definition defaultMaxRetries :: int where
  "defaultMaxRetries = 3"

text \<open>time.Millisecond is 1000000 nanoseconds.\<close>

definition Millisecond :: int where
  "Millisecond = 1000000"

definition defaultRetryDelay :: int where
  "defaultRetryDelay = 100 * Millisecond"

definition serverErrorThreshold :: int where
  "serverErrorThreshold = 500"

definition StatusOK :: int where
  "StatusOK = 200"

text \<open>Go's int and time.Duration are 64-bit signed here: arithmetic wraps around.\<close>

definition int64 :: "int \<Rightarrow> int" where
  "int64 x = (x + 2 ^ 63) mod 2 ^ 64 - 2 ^ 63"

section \<open>Formatting\<close>

text \<open>The verb d of package fmt on an int: decimal digits, a minus sign when negative.\<close>

definition digit :: "nat \<Rightarrow> char" where
  "digit n = ''0123456789'' ! n"

fun show_nat :: "nat \<Rightarrow> string" where
  "show_nat n = (if n < 10 then [digit n] else show_nat (n div 10) @ [digit (n mod 10)])"

declare show_nat.simps [simp del]

definition show_int :: "int \<Rightarrow> string" where
  "show_int i = (if i < 0 then CHR ''-'' # show_nat (nat (- i)) else show_nat (nat i))"

text \<open>
  fmt.Errorf with a format that ends in the verb w: the message is the text before the
  verb followed by the operand's message; a nil operand is printed as a bad verb and
  nothing is wrapped.
\<close>

definition Errorf_w :: "string \<Rightarrow> error option \<Rightarrow> error" where
  "Errorf_w pre err =
     WrapError (pre @ (case err of None \<Rightarrow> ''%!w(<nil>)'' | Some e \<Rightarrow> Error_msg e)) err"

section \<open>The retryability predicate\<close>

definition isRetryable :: "Response option \<Rightarrow> error option \<Rightarrow> bool" where
  "isRetryable resp err =
     (if err \<noteq> None then True
      else if (case resp of None \<Rightarrow> False | Some r \<Rightarrow> serverErrorThreshold \<le> StatusCode r)
      then True
      else False)"

section \<open>The retry controller\<close>

text \<open>
  The loop of retryableAPICall from iteration \<open>attempt\<close> on, with \<open>err\<close> the error
  variable as the previous iterations left it. \<open>Inr\<close> is the early return of the
  outcome that was not retryable; \<open>Inl\<close> is leaving the loop (by the break, or by the
  loop condition) with the last captured error.
\<close>

function retry_loop ::
  "('s \<Rightarrow> outcome \<times> 's) \<Rightarrow> int \<Rightarrow> (Response option \<Rightarrow> error option \<Rightarrow> bool) \<Rightarrow>
     int \<Rightarrow> error option \<Rightarrow> 's world \<Rightarrow> (error option + outcome) \<times> 's world" where
  "retry_loop fn maxRetries isRetryable' attempt err w =
     (if attempt \<le> maxRetries then
        (case call fn (if attempt > 0
                       then emit (Sleep (int64 (attempt * defaultRetryDelay))) w
                       else w) of
           ((resp, err'), w2) \<Rightarrow>
             if \<not> isRetryable' resp err' then (Inr (resp, err'), w2)
             else
               (let w3 = (case resp of
                            Some r \<Rightarrow> emit (Close (stream_id (Body r))) w2
                          | None \<Rightarrow> w2)
                in if attempt = maxRetries then (Inl err', w3)
                   else retry_loop fn maxRetries isRetryable' (attempt + 1) err' w3))
      else (Inl err, w))"
  by pat_completeness auto
termination
  by (relation "measure (\<lambda>(fn, maxRetries, isR, attempt, err, w). nat (maxRetries + 1 - attempt))")
     auto

declare retry_loop.simps [simp del]

definition retryableAPICall ::
  "('s \<Rightarrow> outcome \<times> 's) \<Rightarrow> int \<Rightarrow> (Response option \<Rightarrow> error option \<Rightarrow> bool) \<Rightarrow>
     's world \<Rightarrow> outcome \<times> 's world" where
  "retryableAPICall fn maxRetries isRetryable' w =
     (case retry_loop fn maxRetries isRetryable' 0 None w of
        (Inr (resp, err), w') \<Rightarrow> ((resp, err), w')
      | (Inl err, w') \<Rightarrow>
          ((None,
            Some (Errorf_w (''failed after '' @ show_int (int64 (maxRetries + 1)) @ '' attempts: '')
                    err)),
           w'))"

section \<open>The handler\<close>

text \<open>
  DefaultHandler holds the HTTP client; of the client only Get is used, a function of
  the URL that returns an outcome and may change the state behind it.
\<close>

record 's DefaultHandler =
  httpClient_Get :: "string \<Rightarrow> 's \<Rightarrow> outcome \<times> 's"

text \<open>Dereferencing a nil response is a run-time panic.\<close>

datatype panic = NilPointerDereference

text \<open>
  getData. The deferred close of the body runs when the function returns, after the
  read and the print.
\<close>

definition getData :: "'s DefaultHandler \<Rightarrow> string \<Rightarrow> 's world \<Rightarrow> (panic + error option) \<times> 's world" where
  "getData h url w =
     (case retryableAPICall (httpClient_Get h url) defaultMaxRetries isRetryable w of
        ((resp, err), w1) \<Rightarrow>
          (case err of
             Some e \<Rightarrow> (Inr (Some (Errorf_w ''failed to make HTTP request: '' (Some e))), w1)
           | None \<Rightarrow>
               (case resp of
                  None \<Rightarrow> (Inl NilPointerDereference, w1)
                | Some r \<Rightarrow>
                    if StatusCode r \<noteq> StatusOK
                    then (Inr (Some (ErrorString
                                 (''unexpected status code: '' @ show_int (StatusCode r)))),
                          emit (Close (stream_id (Body r))) w1)
                    else
                      (let w2 = emit (Read (stream_id (Body r))) w1
                       in case ReadAll (Body r) of
                            Inl re \<Rightarrow>
                              (Inr (Some (Errorf_w ''failed to read response body: '' (Some re))),
                               emit (Close (stream_id (Body r))) w2)
                          | Inr body \<Rightarrow>
                              (Inr None,
                               emit (Close (stream_id (Body r)))
                                 (emit (Printf (''Received '' @ show_int (int (length body))
                                                @ '' bytes of data'' @ [CHR 0x0A])) w2))))))"

definition Handle :: "'s DefaultHandler \<Rightarrow> string \<Rightarrow> 's world \<Rightarrow> (panic + error option) \<times> 's world" where
  "Handle h url w = getData h url w"

section \<open>Sequences of outcomes\<close>

text \<open>
  The outcome of call number \<open>n\<close> (from 0) of the attempt function started in state
  \<open>s\<close>, with the state that call leaves.
\<close>

fun outcome_at :: "('s \<Rightarrow> outcome \<times> 's) \<Rightarrow> 's \<Rightarrow> nat \<Rightarrow> outcome \<times> 's" where
  "outcome_at fn s 0 = fn s"
| "outcome_at fn s (Suc n) = outcome_at fn (snd (fn s)) n"

text \<open>
  An attempt function that counts its calls and answers from a script, as the round
  trippers of the tests do: the answer at position callCount, and the last answer of
  the script from then on.
\<close>

definition scripted :: "outcome list \<Rightarrow> nat \<Rightarrow> outcome \<times> nat" where
  "scripted ocs callCount =
     ((if callCount < length ocs then ocs ! callCount else last ocs), callCount + 1)"

definition createMockResponse :: "int \<Rightarrow> string \<Rightarrow> nat \<Rightarrow> Response" where
  "createMockResponse statusCode body sid =
     \<lparr>StatusCode = statusCode, Body = \<lparr>stream_id = sid, ReadAll = Inr body\<rparr>\<rparr>"

section \<open>Describing runs\<close>

text \<open>
  What one iteration of the loop logs around its call: the backoff sleep before it, and
  the closing of a discarded response after it.
\<close>

definition backoff :: "int \<Rightarrow> event list" where
  "backoff attempt =
     (if attempt > 0 then [Sleep (int64 (attempt * defaultRetryDelay))] else [])"

definition discard :: "Response option \<Rightarrow> event list" where
  "discard resp = (case resp of Some r \<Rightarrow> [Close (stream_id (Body r))] | None \<Rightarrow> [])"

text \<open>
  The runs of the loop as a relation: from iteration \<open>a\<close> with error variable \<open>e\<close>,
  the loop ends with result \<open>res\<close> after logging \<open>evs\<close>.
\<close>

inductive loop_run ::
  "(Response option \<Rightarrow> error option \<Rightarrow> bool) \<Rightarrow> int \<Rightarrow> int \<Rightarrow> error option \<Rightarrow>
     (error option + outcome) \<Rightarrow> event list \<Rightarrow> bool"
  for isR :: "Response option \<Rightarrow> error option \<Rightarrow> bool" and R :: int where
  skip: "R < a \<Longrightarrow> loop_run isR R a e (Inl e) []"
| return: "a \<le> R \<Longrightarrow> \<not> isR resp err' \<Longrightarrow>
     loop_run isR R a e (Inr (resp, err')) (backoff a @ [Called (resp, err')])"
| break: "a = R \<Longrightarrow> isR resp err' \<Longrightarrow>
     loop_run isR R a e (Inl err') (backoff a @ Called (resp, err') # discard resp)"
| again: "a < R \<Longrightarrow> isR resp err' \<Longrightarrow> loop_run isR R (a + 1) err' res evs \<Longrightarrow>
     loop_run isR R a e res (backoff a @ Called (resp, err') # discard resp @ evs)"

text \<open>
  Every response a call produced is either retryable and closed by the very next event,
  or not retryable, produced by the last event, and the result of the loop.
\<close>

definition closed_or_returned ::
  "(Response option \<Rightarrow> error option \<Rightarrow> bool) \<Rightarrow> (error option + outcome) \<Rightarrow>
     event list \<Rightarrow> bool" where
  "closed_or_returned isR res evs =
     (\<forall>pre r e post. evs = pre @ Called (Some r, e) # post \<longrightarrow>
        (isR (Some r) e \<and> (\<exists>post'. post = Close (stream_id (Body r)) # post')) \<or>
        (\<not> isR (Some r) e \<and> post = [] \<and> res = Inr (Some r, e)))"

text \<open>
  The backoff schedule of a run that starts at iteration \<open>a\<close>: before the call of
  iteration \<open>n\<close> the last event is the sleep of \<open>n\<close> delays when \<open>n\<close> is positive,
  nothing at all has happened when \<open>n\<close> is 0, and the sleeps so far are one per
  iteration.
\<close>

definition schedule :: "int \<Rightarrow> event list \<Rightarrow> bool" where
  "schedule a evs =
     (\<forall>pre oc post. evs = pre @ Called oc # post \<longrightarrow>
        (a + int (attempts pre) = 0 \<longrightarrow> pre = []) \<and>
        (0 < a + int (attempts pre) \<longrightarrow>
           pre \<noteq> [] \<and>
           last pre = Sleep (int64 ((a + int (attempts pre)) * defaultRetryDelay))) \<and>
        sleeps pre =
          map (\<lambda>n. int64 (n * defaultRetryDelay)) [max 1 a .. a + int (attempts pre)])"

text \<open>Whether call number \<open>n\<close> of the attempt function yields a retryable outcome.\<close>

definition retryable_at ::
  "(Response option \<Rightarrow> error option \<Rightarrow> bool) \<Rightarrow> ('s \<Rightarrow> outcome \<times> 's) \<Rightarrow> 's \<Rightarrow> nat \<Rightarrow> bool" where
  "retryable_at isR fn s n = (case fst (outcome_at fn s n) of (resp, err) \<Rightarrow> isR resp err)"

section \<open>Fixtures of the handler's tests\<close>

definition testURL :: string where
  "testURL = ''https://example.com/api/test''"

text \<open>A handler whose client answers from a script, whatever the URL.\<close>

definition mockHandler :: "outcome list \<Rightarrow> nat DefaultHandler" where
  "mockHandler ocs = \<lparr>httpClient_Get = (\<lambda>url. scripted ocs)\<rparr>"

text \<open>No call made yet, nothing logged.\<close>

definition fresh :: "nat world" where
  "fresh = \<lparr>fn_state = 0, trace = []\<rparr>"

definition networkError :: error where
  "networkError = ErrorString ''network error''"



section \<open>Basic facts about the log\<close>

lemma trace_emit [simp]: "trace (emit ev w) = trace w @ [ev]"
  by (simp add: emit_def)

lemma fn_state_emit [simp]: "fn_state (emit ev w) = fn_state w"
  by (simp add: emit_def)

lemma attempts_simps [simp]:
  "attempts [] = 0"
  "attempts (Called oc # evs) = Suc (attempts evs)"
  "attempts (Sleep d # evs) = attempts evs"
  "attempts (Close b # evs) = attempts evs"
  "attempts (Read b # evs) = attempts evs"
  "attempts (Printf s # evs) = attempts evs"
  "attempts (xs @ ys) = attempts xs + attempts ys"
  by (simp_all add: attempts_def)

lemma backoff_no_call [simp]: "attempts (backoff a) = 0"
  by (simp add: backoff_def)

lemma discard_no_call [simp]: "attempts (discard resp) = 0"
  by (simp add: discard_def split: option.splits)

lemma sleeps_append [simp]: "sleeps (xs @ ys) = sleeps xs @ sleeps ys"
  by (induction xs rule: sleeps.induct) auto

lemma sleeps_backoff:
  "sleeps (backoff a) = map (\<lambda>n. int64 (n * defaultRetryDelay)) [max 1 a .. a]"
  by (simp add: backoff_def upto.simps)

lemma sleeps_discard [simp]: "sleeps (discard resp) = []"
  by (simp add: discard_def split: option.splits)

lemma calls_append [simp]: "calls (xs @ ys) = calls xs @ calls ys"
  by (induction xs rule: calls.induct) auto

lemma calls_backoff [simp]: "calls (backoff a) = []"
  by (simp add: backoff_def)

lemma calls_discard [simp]: "calls (discard resp) = []"
  by (simp add: discard_def split: option.splits)

lemma map_outcomes_Suc:
  "map f [0..<Suc n] = f 0 # map (\<lambda>i. f (Suc i)) [0..<n]"
  by (simp add: upt_conv_Cons map_Suc_upt [symmetric] del: upt_Suc)

lemma terminal_response:
  "\<not> isRetryable (Some r) err \<Longrightarrow> err = None \<and> StatusCode r < 500"
  by (auto simp: isRetryable_def serverErrorThreshold_def split: if_splits)

lemma int64_id: "- (2 ^ 63) \<le> x \<Longrightarrow> x < 2 ^ 63 \<Longrightarrow> int64 x = x"
  by (simp add: int64_def)


section \<open>The loop, step by step\<close>

lemma retry_loop_return:
  assumes "attempt \<le> maxRetries" "fn (fn_state w) = ((resp, err'), s')" "\<not> isR resp err'"
  shows "retry_loop fn maxRetries isR attempt err w =
           (Inr (resp, err'), \<lparr>fn_state = s', trace = trace w @ backoff attempt @ [Called (resp, err')]\<rparr>)"
  using assms by (subst retry_loop.simps) (simp add: call_def backoff_def)

lemma retry_loop_break:
  assumes "attempt = maxRetries" "fn (fn_state w) = ((resp, err'), s')" "isR resp err'"
  shows "retry_loop fn maxRetries isR attempt err w =
           (Inl err', \<lparr>fn_state = s',
                        trace = trace w @ backoff attempt @ [Called (resp, err')] @ discard resp\<rparr>)"
  using assms by (subst retry_loop.simps) (simp add: call_def backoff_def discard_def emit_def split: option.splits)

lemma retry_loop_again:
  assumes "attempt < maxRetries" "fn (fn_state w) = ((resp, err'), s')" "isR resp err'"
  shows "retry_loop fn maxRetries isR attempt err w =
           retry_loop fn maxRetries isR (attempt + 1) err'
             \<lparr>fn_state = s', trace = trace w @ backoff attempt @ [Called (resp, err')] @ discard resp\<rparr>"
  using assms by (subst retry_loop.simps) (simp add: call_def backoff_def discard_def emit_def split: option.splits)

lemma retry_loop_skip: "R < a \<Longrightarrow> retry_loop fn R isR a e w = (Inl e, w)"
  by (subst retry_loop.simps) simp

text \<open>The loop, one iteration at a time.\<close>

lemma retry_loop_rule [case_names return break again skip]:
  assumes return: "\<And>a e w resp err' s'.
      a \<le> R \<Longrightarrow> fn (fn_state w) = ((resp, err'), s') \<Longrightarrow> \<not> isR resp err' \<Longrightarrow>
      P a e w (Inr (resp, err'),
               \<lparr>fn_state = s', trace = trace w @ backoff a @ [Called (resp, err')]\<rparr>)"
    and break: "\<And>a e w resp err' s'.
      a = R \<Longrightarrow> fn (fn_state w) = ((resp, err'), s') \<Longrightarrow> isR resp err' \<Longrightarrow>
      P a e w (Inl err',
               \<lparr>fn_state = s', trace = trace w @ backoff a @ [Called (resp, err')] @ discard resp\<rparr>)"
    and again: "\<And>a e w resp err' s' w3.
      a < R \<Longrightarrow> fn (fn_state w) = ((resp, err'), s') \<Longrightarrow> isR resp err' \<Longrightarrow>
      w3 = \<lparr>fn_state = s', trace = trace w @ backoff a @ [Called (resp, err')] @ discard resp\<rparr> \<Longrightarrow>
      P (a + 1) err' w3 (retry_loop fn R isR (a + 1) err' w3) \<Longrightarrow>
      P a e w (retry_loop fn R isR (a + 1) err' w3)"
    and skip: "\<And>a e w. R < a \<Longrightarrow> P a e w (Inl e, w)"
  shows "P a e w (retry_loop fn R isR a e w)"
  using assms
proof (induction fn R isR a e w rule: retry_loop.induct)
  case (1 fn R isR a e w)
  note return = "1.prems"(1) and break = "1.prems"(2) and again = "1.prems"(3)
    and skip = "1.prems"(4)
  show ?case
  proof (cases "a \<le> R")
    case False
    then have "retry_loop fn R isR a e w = (Inl e, w)"
      by (subst retry_loop.simps) simp
    with False skip show ?thesis by simp
  next
    case le: True
    obtain resp err' s' where f: "fn (fn_state w) = ((resp, err'), s')"
      by (metis prod.exhaust)
    show ?thesis
    proof (cases "isR resp err'")
      case False
      with le f retry_loop_return [of a R fn w resp err' s' isR e] return [of a w resp err' s' e]
      show ?thesis by simp
    next
      case retry: True
      show ?thesis
      proof (cases "a = R")
        case True
        with f retry retry_loop_break [of a R fn w resp err' s' isR e] break [of a w resp err' s' e]
        show ?thesis by simp
      next
        case False
        with le have lt: "a < R" by simp
        define w3 where "w3 = \<lparr>fn_state = s', trace = trace w @ backoff a @ [Called (resp, err')] @ discard resp\<rparr>"
        have c: "call fn (if 0 < a then emit (Sleep (int64 (a * defaultRetryDelay))) w else w)
                 = ((resp, err'), \<lparr>fn_state = s', trace = trace w @ backoff a @ [Called (resp, err')]\<rparr>)"
          using f by (simp add: call_def backoff_def)
        have w3: "w3 = (case resp of None \<Rightarrow> \<lparr>fn_state = s', trace = trace w @ backoff a @ [Called (resp, err')]\<rparr>
                        | Some r \<Rightarrow> emit (Close (stream_id (Body r))) \<lparr>fn_state = s', trace = trace w @ backoff a @ [Called (resp, err')]\<rparr>)"
          by (simp add: w3_def discard_def emit_def split: option.splits)
        have ih: "P (a + 1) err' w3 (retry_loop fn R isR (a + 1) err' w3)"
          by (rule "1.IH" [OF le c [symmetric] refl _ w3 False "1.prems"]) (simp add: retry)
        have "retry_loop fn R isR a e w = retry_loop fn R isR (a + 1) err' w3"
          using retry_loop_again [of a R fn w resp err' s' isR e] lt f retry by (simp add: w3_def)
        with again [of a w resp err' s' w3 e] lt f retry w3_def ih show ?thesis by simp
      qed
    qed
  qed
qed

lemma retry_loop_run:
  "\<exists>evs. trace (snd (retry_loop fn R isR a e w)) = trace w @ evs \<and>
         loop_run isR R a e (fst (retry_loop fn R isR a e w)) evs"
proof (induction rule: retry_loop_rule [where fn = fn and R = R and isR = isR])
  case (return a e w resp err' s')
  then show ?case by (simp add: loop_run.return)
next
  case (break a e w resp err' s')
  then show ?case by (simp add: loop_run.break)
next
  case (again a e w resp err' s' w3)
  then obtain evs where t: "trace (snd (retry_loop fn R isR (a + 1) err' w3)) = trace w3 @ evs"
    and r: "loop_run isR R (a + 1) err' (fst (retry_loop fn R isR (a + 1) err' w3)) evs"
    by blast
  from again(1,3) r
  have "loop_run isR R a e (fst (retry_loop fn R isR (a + 1) err' w3))
          (backoff a @ Called (resp, err') # discard resp @ evs)"
    by (rule loop_run.again)
  moreover have "trace (snd (retry_loop fn R isR (a + 1) err' w3))
                   = trace w @ backoff a @ Called (resp, err') # discard resp @ evs"
    using t again(4) by simp
  ultimately show ?case by blast
next
  case (skip a e w)
  then show ?case by (simp add: loop_run.skip)
qed

text \<open>The calls of the log are the successive answers of the attempt function.\<close>

lemma retry_loop_calls:
  "\<exists>evs. trace (snd (retry_loop fn R isR a e w)) = trace w @ evs \<and>
     calls evs = map (\<lambda>n. fst (outcome_at fn (fn_state w) n)) [0..<attempts evs] \<and>
     fn_state (snd (retry_loop fn R isR a e w)) =
       (if attempts evs = 0 then fn_state w
        else snd (outcome_at fn (fn_state w) (attempts evs - 1)))"
proof (induction rule: retry_loop_rule [where fn = fn and R = R and isR = isR])
  case (return a e w resp err' s')
  then show ?case
    by (intro exI [of _ "backoff a @ [Called (resp, err')]"]) simp
next
  case (break a e w resp err' s')
  then show ?case
    by (intro exI [of _ "backoff a @ [Called (resp, err')] @ discard resp"]) simp
next
  case (again a e w resp err' s' w3)
  let ?x = "retry_loop fn R isR (a + 1) err' w3"
  from again(5) obtain evs where t: "trace (snd ?x) = trace w3 @ evs"
    and c: "calls evs = map (\<lambda>n. fst (outcome_at fn (fn_state w3) n)) [0..<attempts evs]"
    and s: "fn_state (snd ?x) =
       (if attempts evs = 0 then fn_state w3
        else snd (outcome_at fn (fn_state w3) (attempts evs - 1)))"
    by blast
  have s3: "fn_state w3 = s'" using again(4) by simp
  let ?evs = "backoff a @ Called (resp, err') # discard resp @ evs"
  have n: "attempts ?evs = Suc (attempts evs)" by simp
  have 1: "trace (snd ?x) = trace w @ ?evs" using t again(4) by simp
  have 2: "calls ?evs = map (\<lambda>n. fst (outcome_at fn (fn_state w) n)) [0..<attempts ?evs]"
    unfolding n map_outcomes_Suc using c again(2) s3 by simp
  have 3: "fn_state (snd ?x) =
       (if attempts ?evs = 0 then fn_state w
        else snd (outcome_at fn (fn_state w) (attempts ?evs - 1)))"
  proof (cases "attempts evs")
    case 0
    with s s3 again(2) show ?thesis by simp
  next
    case (Suc m)
    with s s3 again(2) show ?thesis by simp
  qed
  from 1 2 3 show ?case by blast
next
  case (skip a e w)
  then show ?case by simp
qed

lemma retry_loop_trace_calls:
  "trace (snd (retry_loop fn R isR a e w)) = trace w @ evs \<Longrightarrow>
   calls evs = map (\<lambda>n. fst (outcome_at fn (fn_state w) n)) [0..<attempts evs]"
  using retry_loop_calls [of fn R isR a e w] by auto

lemma retryableAPICall_split:
  "retryableAPICall fn R isR w =
     ((case fst (retry_loop fn R isR 0 None w) of
         Inr oc \<Rightarrow> oc
       | Inl err \<Rightarrow>
           (None, Some (Errorf_w (''failed after '' @ show_int (int64 (R + 1)) @ '' attempts: '') err))),
      snd (retry_loop fn R isR 0 None w))"
  by (simp add: retryableAPICall_def split: prod.splits sum.splits)

lemma retryableAPICall_run:
  "\<exists>evs. trace (snd (retryableAPICall fn R isR w)) = trace w @ evs \<and>
         loop_run isR R 0 None (fst (retry_loop fn R isR 0 None w)) evs"
  using retry_loop_run [of fn R isR 0 None w] by (simp add: retryableAPICall_split)

lemma retryableAPICall_first_terminal:
  assumes "fn (fn_state w) = ((resp, err), s')" "\<not> isR resp err" "0 \<le> R"
  shows "retryableAPICall fn R isR w =
           ((resp, err), \<lparr>fn_state = s', trace = trace w @ [Called (resp, err)]\<rparr>)"
  using retry_loop_return [of 0 R fn w resp err s' isR None] assms
  by (simp add: retryableAPICall_split backoff_def)

lemma handler_first_terminal:
  assumes "httpClient_Get h url (fn_state w) = ((Some r, None), s')" "StatusCode r < 500"
  shows "retryableAPICall (httpClient_Get h url) defaultMaxRetries isRetryable w =
           ((Some r, None), \<lparr>fn_state = s', trace = trace w @ [Called (Some r, None)]\<rparr>)"
proof -
  have "\<not> isRetryable (Some r) None"
    using assms(2) by (simp add: isRetryable_def serverErrorThreshold_def)
  with retryableAPICall_first_terminal
         [where fn = "httpClient_Get h url" and w = w and resp = "Some r" and err = None
            and s' = s' and isR = isRetryable and R = defaultMaxRetries] assms(1)
  show ?thesis by (simp add: defaultMaxRetries_def)
qed

lemma getData_tail:
  "\<exists>tail. trace (snd (getData h url w)) =
            trace (snd (retryableAPICall (httpClient_Get h url) defaultMaxRetries isRetryable w)) @ tail \<and>
          attempts tail = 0 \<and>
          (\<forall>r. fst (retryableAPICall (httpClient_Get h url) defaultMaxRetries isRetryable w) = (Some r, None)
             \<longrightarrow> Close (stream_id (Body r)) \<in> set tail)"
  by (auto simp: getData_def Let_def split: prod.splits option.splits sum.splits)

section \<open>Splitting a log at a call\<close>

lemma no_call_prefix:
  "attempts xs = 0 \<Longrightarrow> xs @ ys = pre @ Called c # post \<Longrightarrow>
   \<exists>pre'. pre = xs @ pre' \<and> ys = pre' @ Called c # post"
proof (induction xs arbitrary: pre)
  case Nil
  then show ?case by simp
next
  case (Cons x xs)
  from Cons.prems(1) have nx: "\<not> is_call x" and nxs: "attempts xs = 0"
    by (auto simp: attempts_def split: if_splits)
  from nx Cons.prems(2) obtain pre2 where p: "pre = x # pre2" "xs @ ys = pre2 @ Called c # post"
    by (cases pre) auto
  from Cons.IH [OF nxs p(2)] p(1) show ?case by auto
qed

lemma no_call_suffix:
  assumes "attempts ys = 0" "xs @ ys = pre @ Called c # post"
  shows "\<exists>post'. post = post' @ ys \<and> xs = pre @ Called c # post'"
proof -
  from assms(2) obtain us where
    "(xs = pre @ us \<and> us @ ys = Called c # post) \<or> (xs @ us = pre \<and> ys = us @ Called c # post)"
    by (auto simp: append_eq_append_conv2)
  then show ?thesis
  proof
    assume a: "xs = pre @ us \<and> us @ ys = Called c # post"
    show ?thesis
    proof (cases us)
      case Nil
      with a assms(1) show ?thesis by simp
    next
      case (Cons u us')
      with a show ?thesis by auto
    qed
  next
    assume "xs @ us = pre \<and> ys = us @ Called c # post"
    with assms(1) show ?thesis by simp
  qed
qed

lemma iteration_decomp:
  assumes "attempts pre0 = 0" "attempts mid = 0"
    and "pre0 @ Called oc # mid @ evs = pre @ Called c # post"
  shows "(pre = pre0 \<and> c = oc \<and> post = mid @ evs) \<or>
         (\<exists>pre'. pre = pre0 @ Called oc # mid @ pre' \<and> evs = pre' @ Called c # post)"
proof -
  from no_call_prefix [OF assms(1,3)] obtain p1 where
    p1: "pre = pre0 @ p1" "Called oc # mid @ evs = p1 @ Called c # post" by blast
  show ?thesis
  proof (cases p1)
    case Nil
    with p1 show ?thesis by simp
  next
    case (Cons x p2)
    with p1(2) have x: "x = Called oc" and m: "mid @ evs = p2 @ Called c # post" by simp_all
    from no_call_prefix [OF assms(2) m] obtain pre' where
      "p2 = mid @ pre'" "evs = pre' @ Called c # post" by blast
    with p1(1) Cons x show ?thesis by simp
  qed
qed

section \<open>Invariants of the runs\<close>

text \<open>Bounds on the number of calls, and the first event.\<close>

lemma loop_run_count:
  "loop_run isR R a e res evs \<Longrightarrow> a \<le> R \<Longrightarrow>
     1 \<le> attempts evs \<and> int (attempts evs) \<le> R + 1 - a \<and>
     (\<exists>oc rest. evs = backoff a @ Called oc # rest)"
proof (induction rule: loop_run.induct)
  case (again a resp err' res evs e)
  then show ?case by auto
qed auto

text \<open>How the loop ends.\<close>

lemma loop_run_Inr:
  "loop_run isR R a e res evs \<Longrightarrow> res = Inr (resp, err) \<Longrightarrow>
     \<not> isR resp err \<and> (\<exists>pre. evs = pre @ [Called (resp, err)])"
proof (induction rule: loop_run.induct)
  case (return a resp' err' e)
  then show ?case by auto
next
  case (again a resp' err' res evs e)
  then obtain pre where "evs = pre @ [Called (resp, err)]" and "\<not> isR resp err" by auto
  then show ?case by (auto intro: exI [of _ "backoff a @ Called (resp', err') # discard resp' @ pre"])
qed auto

lemma loop_run_Inl:
  "loop_run isR R a e res evs \<Longrightarrow> res = Inl err \<Longrightarrow> a \<le> R \<Longrightarrow>
     int (attempts evs) = R + 1 - a \<and>
     (\<exists>pre resp. evs = pre @ Called (resp, err) # discard resp \<and> isR resp err)"
proof (induction rule: loop_run.induct)
  case (break a resp' err' e)
  then show ?case by (auto intro: exI [of _ "backoff a"])
next
  case (again a resp' err' res evs e)
  then obtain pre resp where "evs = pre @ Called (resp, err) # discard resp" "isR resp err"
    and "int (attempts evs) = R - a" by auto
  then show ?case
    by (auto intro!: exI [of _ "backoff a @ Called (resp', err') # discard resp' @ pre"] exI [of _ resp])
qed auto

text \<open>Every response is either discarded and closed at once, or returned by the last call.\<close>

lemma loop_run_closed:
  "loop_run isR R a e res evs \<Longrightarrow> closed_or_returned isR res evs"
proof (induction rule: loop_run.induct)
  case (skip a e)
  show ?case by (simp add: closed_or_returned_def)
next
  case (return a resp err' e)
  show ?case unfolding closed_or_returned_def
  proof (intro allI impI)
    fix pre r e' post
    assume "backoff a @ [Called (resp, err')] = pre @ Called (Some r, e') # post"
    then have "backoff a @ Called (resp, err') # [] @ [] = pre @ Called (Some r, e') # post" by simp
    from iteration_decomp [OF backoff_no_call attempts_simps(1) this] return
    show "(isR (Some r) e' \<and> (\<exists>post'. post = Close (stream_id (Body r)) # post')) \<or>
          (\<not> isR (Some r) e' \<and> post = [] \<and> Inr (resp, err') = Inr (Some r, e'))"
      by auto
  qed
next
  case (break a resp err' e)
  show ?case unfolding closed_or_returned_def
  proof (intro allI impI)
    fix pre r e' post
    assume "backoff a @ Called (resp, err') # discard resp = pre @ Called (Some r, e') # post"
    then have "backoff a @ Called (resp, err') # discard resp @ [] = pre @ Called (Some r, e') # post"
      by simp
    from iteration_decomp [OF backoff_no_call discard_no_call this] break
    show "(isR (Some r) e' \<and> (\<exists>post'. post = Close (stream_id (Body r)) # post')) \<or>
          (\<not> isR (Some r) e' \<and> post = [] \<and> Inl err' = Inr (Some r, e'))"
      by (auto simp: discard_def)
  qed
next
  case (again a resp err' res evs e)
  show ?case unfolding closed_or_returned_def
  proof (intro allI impI)
    fix pre r e' post
    assume "backoff a @ Called (resp, err') # discard resp @ evs = pre @ Called (Some r, e') # post"
    from iteration_decomp [OF backoff_no_call discard_no_call this]
    consider (first) "Some r = resp" "e' = err'" "post = discard resp @ evs"
      | (later) pre' where "evs = pre' @ Called (Some r, e') # post"
      by auto
    then show "(isR (Some r) e' \<and> (\<exists>post'. post = Close (stream_id (Body r)) # post')) \<or>
          (\<not> isR (Some r) e' \<and> post = [] \<and> res = Inr (Some r, e'))"
    proof cases
      case first
      with again(2) show ?thesis by (auto simp: discard_def)
    next
      case later
      with again.IH show ?thesis unfolding closed_or_returned_def by blast
    qed
  qed
qed

lemma schedule_first:
  "0 \<le> a \<Longrightarrow>
     (a = 0 \<longrightarrow> backoff a = []) \<and>
     (0 < a \<longrightarrow> backoff a \<noteq> [] \<and> last (backoff a) = Sleep (int64 (a * defaultRetryDelay)))"
  by (simp add: backoff_def)

lemma schedule_step:
  assumes "0 \<le> a" "schedule (a + 1) evs"
  shows "schedule a (backoff a @ Called oc # discard resp @ evs)"
  unfolding schedule_def
proof (intro allI impI)
  fix pre c post
  assume "backoff a @ Called oc # discard resp @ evs = pre @ Called c # post"
  from iteration_decomp [OF backoff_no_call discard_no_call this]
  consider (first) "pre = backoff a"
    | (later) pre' where "pre = backoff a @ Called oc # discard resp @ pre'"
        "evs = pre' @ Called c # post"
    by auto
  then show "(a + int (attempts pre) = 0 \<longrightarrow> pre = []) \<and>
        (0 < a + int (attempts pre) \<longrightarrow>
           pre \<noteq> [] \<and> last pre = Sleep (int64 ((a + int (attempts pre)) * defaultRetryDelay))) \<and>
        sleeps pre = map (\<lambda>n. int64 (n * defaultRetryDelay)) [max 1 a .. a + int (attempts pre)]"
  proof cases
    case first
    with schedule_first [OF assms(1)] sleeps_backoff [of a] show ?thesis by simp
  next
    case later
    let ?n = "a + 1 + int (attempts pre')"
    from assms(2) later(2) have l: "pre' \<noteq> []" "last pre' = Sleep (int64 (?n * defaultRetryDelay))"
      and s: "sleeps pre' = map (\<lambda>n. int64 (n * defaultRetryDelay)) [max 1 (a + 1) .. ?n]"
      using assms(1) by (auto simp: schedule_def)
    have n: "a + int (attempts pre) = ?n" using later(1) by simp
    have "[max 1 a .. ?n] = [max 1 a .. a] @ [a + 1 .. ?n]"
      using assms(1) upto_split2 [of "max 1 a" "a" ?n] upto_rec1 [of "a + 1" ?n]
      by (cases "a = 0") (simp_all add: upto.simps)
    moreover have "max 1 (a + 1) = a + 1" using assms(1) by simp
    ultimately have "sleeps pre = map (\<lambda>n. int64 (n * defaultRetryDelay)) [max 1 a .. ?n]"
      using later(1) s sleeps_backoff [of a] by simp
    with l n later(1) assms(1) show ?thesis by (simp add: add.assoc)
  qed
qed

lemma loop_run_schedule:
  "loop_run isR R a e res evs \<Longrightarrow> 0 \<le> a \<Longrightarrow> schedule a evs"
proof (induction rule: loop_run.induct)
  case (skip a e)
  show ?case by (simp add: schedule_def)
next
  case (return a resp err' e)
  have "schedule (a + 1) []" by (simp add: schedule_def)
  from schedule_step [OF return(3) this, of "(resp, err')" None] show ?case
    by (simp add: discard_def)
next
  case (break a resp err' e)
  have "schedule (a + 1) []" by (simp add: schedule_def)
  from schedule_step [OF break(3) this, of "(resp, err')" resp] show ?case by simp
next
  case (again a resp err' res evs e)
  then have "schedule (a + 1) evs" by simp
  from schedule_step [OF again(5) this] show ?case .
qed

section \<open>Runs over a sequence of outcomes\<close>

lemma retryable_at_0: "fn s = ((resp, err), s') \<Longrightarrow> retryable_at isR fn s 0 = isR resp err"
  by (simp add: retryable_at_def)

lemma retryable_at_Suc:
  "fn s = (oc, s') \<Longrightarrow> retryable_at isR fn s (Suc n) = retryable_at isR fn s' n"
  by (simp add: retryable_at_def)


lemma retry_loop_exhaust_at:
  "a + int k = R \<Longrightarrow> \<forall>n\<le>k. retryable_at isR fn (fn_state w) n \<Longrightarrow>
   \<exists>w' evs. retry_loop fn R isR a e w = (Inl (snd (fst (outcome_at fn (fn_state w) k))), w') \<and>
     fn_state w' = snd (outcome_at fn (fn_state w) k) \<and>
     trace w' = trace w @ evs \<and> attempts evs = k + 1"
proof (induction k arbitrary: a e w)
  case 0
  obtain resp err' s' where f: "fn (fn_state w) = ((resp, err'), s')"
    by (metis prod.exhaust)
  with 0 have "isR resp err'" by (simp add: retryable_at_0)
  from retry_loop_break [of a R fn w resp err' s' isR e] 0(1) f this
  show ?case by simp
next
  case (Suc k)
  obtain resp err' s' where f: "fn (fn_state w) = ((resp, err'), s')"
    by (metis prod.exhaust)
  with Suc.prems(2) have r: "isR resp err'" by (auto simp: retryable_at_0)
  define w3 :: "'a world" where
    "w3 = \<lparr>fn_state = s', trace = trace w @ backoff a @ [Called (resp, err')] @ discard resp\<rparr>"
  have step: "retry_loop fn R isR a e w = retry_loop fn R isR (a + 1) err' w3"
    using retry_loop_again [of a R fn w resp err' s' isR e] Suc.prems(1) f r
    by (simp add: w3_def)
  have s3: "fn_state w3 = s'" by (simp add: w3_def)
  have "a + 1 + int k = R" using Suc.prems(1) by simp
  moreover have "\<forall>n\<le>k. retryable_at isR fn (fn_state w3) n"
    using Suc.prems(2) f s3 by (auto simp: retryable_at_Suc [symmetric])
  ultimately obtain w' evs where
    "retry_loop fn R isR (a + 1) err' w3 = (Inl (snd (fst (outcome_at fn (fn_state w3) k))), w')"
    "fn_state w' = snd (outcome_at fn (fn_state w3) k)"
    "trace w' = trace w3 @ evs" "attempts evs = k + 1"
    using Suc.IH [of "a + 1" w3 err'] by blast
  with step f s3 show ?case by (simp add: w3_def)
qed

lemma retry_loop_exit_trace:
  "a + int k \<le> R \<Longrightarrow> \<forall>n<k. retryable_at isR fn (fn_state w) n \<Longrightarrow>
   \<not> retryable_at isR fn (fn_state w) k \<Longrightarrow>
   \<exists>w' pre. retry_loop fn R isR a e w = (Inr (fst (outcome_at fn (fn_state w) k)), w') \<and>
     fn_state w' = snd (outcome_at fn (fn_state w) k) \<and>
     trace w' = trace w @ pre @ [Called (fst (outcome_at fn (fn_state w) k))] \<and>
     attempts pre = k \<and>
     (\<forall>b. Close b \<in> set pre \<longrightarrow>
        (\<exists>n<k. \<exists>r'. fst (fst (outcome_at fn (fn_state w) n)) = Some r' \<and>
                     stream_id (Body r') = b))"
proof (induction k arbitrary: a e w)
  case 0
  obtain resp err' s' where f: "fn (fn_state w) = ((resp, err'), s')"
    by (metis prod.exhaust)
  with 0 have "\<not> isR resp err'" by (simp add: retryable_at_0)
  from retry_loop_return [of a R fn w resp err' s' isR e] 0(1) f this
  have "retry_loop fn R isR a e w =
          (Inr (resp, err'), \<lparr>fn_state = s', trace = trace w @ backoff a @ [Called (resp, err')]\<rparr>)"
    by simp
  with f show ?case
    by (intro exI [of _ "\<lparr>fn_state = s', trace = trace w @ backoff a @ [Called (resp, err')]\<rparr>"]
          exI [of _ "backoff a"]) (simp add: backoff_def)
next
  case (Suc k)
  obtain resp err' s' where f: "fn (fn_state w) = ((resp, err'), s')"
    by (metis prod.exhaust)
  with Suc.prems(2) have r: "isR resp err'" by (auto simp: retryable_at_0)
  define w3 :: "'a world" where
    "w3 = \<lparr>fn_state = s', trace = trace w @ backoff a @ [Called (resp, err')] @ discard resp\<rparr>"
  have step: "retry_loop fn R isR a e w = retry_loop fn R isR (a + 1) err' w3"
    using retry_loop_again [of a R fn w resp err' s' isR e] Suc.prems(1) f r
    by (simp add: w3_def)
  have s3: "fn_state w3 = s'" by (simp add: w3_def)
  have "a + 1 + int k \<le> R" using Suc.prems(1) by simp
  moreover have "\<forall>n<k. retryable_at isR fn (fn_state w3) n"
    using Suc.prems(2) f s3 by (auto simp: retryable_at_Suc [symmetric])
  moreover have "\<not> retryable_at isR fn (fn_state w3) k"
    using Suc.prems(3) f s3 by (simp add: retryable_at_Suc)
  ultimately obtain w' pre where
    l: "retry_loop fn R isR (a + 1) err' w3 = (Inr (fst (outcome_at fn (fn_state w3) k)), w')"
    and st: "fn_state w' = snd (outcome_at fn (fn_state w3) k)"
    and t: "trace w' = trace w3 @ pre @ [Called (fst (outcome_at fn (fn_state w3) k))]"
    and n: "attempts pre = k"
    and c: "\<forall>b. Close b \<in> set pre \<longrightarrow>
        (\<exists>n<k. \<exists>r'. fst (fst (outcome_at fn (fn_state w3) n)) = Some r' \<and>
                     stream_id (Body r') = b)"
    using Suc.IH [of "a + 1" w3 err'] by blast
  let ?pre = "backoff a @ Called (resp, err') # discard resp @ pre"
  have o: "outcome_at fn (fn_state w) (Suc m) = outcome_at fn (fn_state w3) m" for m
    using f s3 by simp
  have 1: "retry_loop fn R isR a e w = (Inr (fst (outcome_at fn (fn_state w) (Suc k))), w')"
    using step l o by simp
  have 2: "fn_state w' = snd (outcome_at fn (fn_state w) (Suc k))" using st o by simp
  have 3: "trace w' = trace w @ ?pre @ [Called (fst (outcome_at fn (fn_state w) (Suc k)))]"
    using t o by (simp add: w3_def)
  have 4: "attempts ?pre = Suc k" using n by simp
  have 5: "\<exists>n<Suc k. \<exists>r'. fst (fst (outcome_at fn (fn_state w) n)) = Some r' \<and>
                     stream_id (Body r') = b" if b: "Close b \<in> set ?pre" for b
  proof -
    from b consider (here) "Close b \<in> set (discard resp)" | (later) "Close b \<in> set pre"
      by (auto simp: backoff_def split: if_splits)
    then show ?thesis
    proof cases
      case here
      then obtain r' where "resp = Some r'" "stream_id (Body r') = b"
        by (auto simp: discard_def split: option.splits)
      with f show ?thesis by (intro exI [of _ 0]) simp
    next
      case later
      with c obtain m r' where "m < k" "fst (fst (outcome_at fn (fn_state w3) m)) = Some r'"
        "stream_id (Body r') = b" by blast
      with o [of m] show ?thesis by (intro exI [of _ "Suc m"]) simp
    qed
  qed
  from 1 2 3 4 5 show ?case by blast
qed

section \<open>The scripted runs of the tests\<close>

lemma outcome_at_scripted:
  "outcome_at (scripted ocs) s n =
     ((if s + n < length ocs then ocs ! (s + n) else last ocs), s + n + 1)"
  by (induction n arbitrary: s) (simp_all add: scripted_def)

lemmas run_simps =
  retryableAPICall_def retry_loop.simps call_def emit_def scripted_def fresh_def
  defaultMaxRetries_def defaultRetryDelay_def Millisecond_def int64_def isRetryable_def
  serverErrorThreshold_def createMockResponse_def networkError_def

lemmas fmt_simps = show_int_def show_nat.simps digit_def Errorf_w_def

lemma run_500s:
  "retryableAPICall (scripted [(Some (createMockResponse 500 ''server error'' 7), None)])
     defaultMaxRetries isRetryable fresh =
   ((None, Some (WrapError ''failed after 4 attempts: %!w(<nil>)'' None)),
    \<lparr>fn_state = 4,
     trace = [Called (Some (createMockResponse 500 ''server error'' 7), None), Close 7,
              Sleep 100000000,
              Called (Some (createMockResponse 500 ''server error'' 7), None), Close 7,
              Sleep 200000000,
              Called (Some (createMockResponse 500 ''server error'' 7), None), Close 7,
              Sleep 300000000,
              Called (Some (createMockResponse 500 ''server error'' 7), None), Close 7]\<rparr>)"
  by (simp add: run_simps fmt_simps)

lemma run_mixed:
  "getData (mockHandler [(Some (createMockResponse 500 ''server error'' 1), None),
                         (Some (createMockResponse 200 ''success'' 2), None)]) testURL fresh =
   (Inr None,
    \<lparr>fn_state = 2,
     trace = [Called (Some (createMockResponse 500 ''server error'' 1), None), Close 1,
              Sleep 100000000,
              Called (Some (createMockResponse 200 ''success'' 2), None),
              Read 2, Printf (''Received 7 bytes of data'' @ [CHR 0x0A]), Close 2]\<rparr>)"
  by (simp add: run_simps fmt_simps getData_def mockHandler_def StatusOK_def)

section \<open>The claims\<close>



text \<open>
  Claim C2. The predicate calls an outcome retryable exactly when the error is present,
  or else a response is present with a status of 500 or more. Every other outcome is
  terminal: a response with a status below 500 (all of 2xx to 4xx), and the outcome with
  neither response nor error.
\<close>

theorem isRetryable_classifies:
  "(isRetryable resp err \<longleftrightarrow>
      err \<noteq> None \<or> (\<exists>r. resp = Some r \<and> 500 \<le> StatusCode r)) \<and>
   (err = None \<and> resp = Some r \<and> StatusCode r < 500 \<longrightarrow> \<not> isRetryable resp err) \<and>
   (err = None \<and> resp = None \<longrightarrow> \<not> isRetryable resp err)"
  by (auto simp: isRetryable_def serverErrorThreshold_def split: option.splits)

theorem isRetryable_classifies_witness:
  "isRetryable None (Some networkError) \<and>
   isRetryable (Some (createMockResponse 503 ''service unavailable'' 1)) None \<and>
   isRetryable (Some (createMockResponse 500 ''server error'' 1)) None \<and>
   \<not> isRetryable (Some (createMockResponse 404 ''not found'' 1)) None \<and>
   \<not> isRetryable (Some (createMockResponse 200 ''success'' 1)) None \<and>
   \<not> isRetryable None None"
  using isRetryable_classifies [of None "Some networkError"]
    isRetryable_classifies [of "Some (createMockResponse 503 ''service unavailable'' 1)" None]
    isRetryable_classifies [of "Some (createMockResponse 500 ''server error'' 1)" None]
    isRetryable_classifies [of "Some (createMockResponse 404 ''not found'' 1)" None
      "createMockResponse 404 ''not found'' 1"]
    isRetryable_classifies [of "Some (createMockResponse 200 ''success'' 1)" None
      "createMockResponse 200 ''success'' 1"]
    isRetryable_classifies [of None None]
  by (simp add: createMockResponse_def)

text \<open>
  Claim C3. Whatever the attempt function answers and whatever the predicate decides,
  retryableAPICall with three retries returns. The first event of the run is the call
  of the attempt function in its initial state (nothing is slept before it), the run
  makes at least one call and at most four, the calls logged are the successive
  answers of the attempt function, and the state the attempt function is left in is
  the one after that many calls.
\<close>

theorem retry_bounded:
  "\<exists>res w' evs rest.
     retryableAPICall fn defaultMaxRetries isR w = (res, w') \<and>
     trace w' = trace w @ evs \<and>
     evs = Called (fst (fn (fn_state w))) # rest \<and>
     1 \<le> attempts evs \<and> attempts evs \<le> 4 \<and>
     calls evs = map (\<lambda>n. fst (outcome_at fn (fn_state w) n)) [0..<attempts evs] \<and>
     fn_state w' = snd (outcome_at fn (fn_state w) (attempts evs - 1))"
proof -
  let ?x = "retry_loop fn defaultMaxRetries isR 0 None w"
  from retry_loop_calls [of fn defaultMaxRetries isR 0 None w] obtain evs where
    t: "trace (snd ?x) = trace w @ evs"
    and c: "calls evs = map (\<lambda>n. fst (outcome_at fn (fn_state w) n)) [0..<attempts evs]"
    and s: "fn_state (snd ?x) =
       (if attempts evs = 0 then fn_state w
        else snd (outcome_at fn (fn_state w) (attempts evs - 1)))"
    by blast
  from retry_loop_run [of fn defaultMaxRetries isR 0 None w] t
  have r: "loop_run isR defaultMaxRetries 0 None (fst ?x) evs" by simp
  from loop_run_count [OF r] obtain oc rest where
    e: "evs = Called oc # rest" and n: "1 \<le> attempts evs" "attempts evs \<le> 4"
    by (auto simp: defaultMaxRetries_def backoff_def)
  from c e have "oc = fst (fn (fn_state w))"
    by (simp add: upt_conv_Cons del: upt_Suc)
  with e have e': "evs = Called (fst (fn (fn_state w))) # rest" by simp
  from s n have s': "fn_state (snd ?x) = snd (outcome_at fn (fn_state w) (attempts evs - 1))"
    by simp
  have "retryableAPICall fn defaultMaxRetries isR w
          = (fst (retryableAPICall fn defaultMaxRetries isR w), snd ?x)"
    by (simp add: retryableAPICall_split)
  with t e' n c s' show ?thesis by blast
qed

theorem retry_bounded_witness:
  "\<exists>res w' evs rest.
     retryableAPICall (scripted [(Some (createMockResponse 500 ''server error'' 7), None)])
       defaultMaxRetries isRetryable fresh = (res, w') \<and>
     trace w' = evs \<and>
     evs = Called (Some (createMockResponse 500 ''server error'' 7), None) # rest \<and>
     attempts evs = 4 \<and>
     calls evs = [(Some (createMockResponse 500 ''server error'' 7), None),
                  (Some (createMockResponse 500 ''server error'' 7), None),
                  (Some (createMockResponse 500 ''server error'' 7), None),
                  (Some (createMockResponse 500 ''server error'' 7), None)] \<and>
     fn_state w' = 4"
proof -
  let ?r = "(Some (createMockResponse 500 ''server error'' 7), None) :: outcome"
  from retry_bounded [of "scripted [?r]" isRetryable fresh] obtain res w' evs rest where
    a: "retryableAPICall (scripted [?r]) defaultMaxRetries isRetryable fresh = (res, w')"
    and t: "trace w' = trace fresh @ evs"
    and e: "evs = Called (fst (scripted [?r] (fn_state fresh))) # rest"
    and c: "calls evs = map (\<lambda>n. fst (outcome_at (scripted [?r]) (fn_state fresh) n))
                          [0..<attempts evs]"
    and s: "fn_state w' = snd (outcome_at (scripted [?r]) (fn_state fresh) (attempts evs - 1))"
    by blast
  from a t run_500s have n: "attempts evs = 4" by (auto simp: fresh_def)
  from c n have c': "calls evs = [?r, ?r, ?r, ?r]"
    by (simp add: outcome_at_scripted upt_conv_Cons del: upt_Suc)
  from s n have s': "fn_state w' = 4" by (simp add: outcome_at_scripted fresh_def)
  from e have e': "evs = Called ?r # rest" by (simp add: scripted_def fresh_def)
  from a t e' n c' s' show ?thesis by (simp add: fresh_def)
qed

text \<open>
  Claim C4. In a run of retryableAPICall with three retries, look at any call of the
  attempt function and at the events \<open>pre\<close> of the run before it, with \<open>n\<close> the
  number of calls among them. When \<open>n\<close> is 0 nothing precedes the call. When \<open>n\<close> is
  at least 1 the event just before the call is a sleep of \<open>n\<close> times 100 ms. The
  sleeps before the call are those of 100 ms, 200 ms, up to \<open>n\<close> times 100 ms, once each.
\<close>

theorem backoff_schedule:
  "\<exists>evs. trace (snd (retryableAPICall fn defaultMaxRetries isR w)) = trace w @ evs \<and>
     (\<forall>pre oc post. evs = pre @ Called oc # post \<longrightarrow>
        (attempts pre = 0 \<longrightarrow> pre = []) \<and>
        (1 \<le> attempts pre \<longrightarrow>
           pre \<noteq> [] \<and> last pre = Sleep (int (attempts pre) * (100 * Millisecond))) \<and>
        sleeps pre = map (\<lambda>n. n * (100 * Millisecond)) [1 .. int (attempts pre)])"
proof -
  from retryableAPICall_run [of fn defaultMaxRetries isR w] obtain evs where
    t: "trace (snd (retryableAPICall fn defaultMaxRetries isR w)) = trace w @ evs"
    and r: "loop_run isR defaultMaxRetries 0 None
              (fst (retry_loop fn defaultMaxRetries isR 0 None w)) evs"
    by blast
  from loop_run_count [OF r] have c: "attempts evs \<le> 4"
    by (simp add: defaultMaxRetries_def)
  from loop_run_schedule [OF r] have s: "schedule 0 evs" by simp
  have "(attempts pre = 0 \<longrightarrow> pre = []) \<and>
        (1 \<le> attempts pre \<longrightarrow>
           pre \<noteq> [] \<and> last pre = Sleep (int (attempts pre) * (100 * Millisecond))) \<and>
        sleeps pre = map (\<lambda>n. n * (100 * Millisecond)) [1 .. int (attempts pre)]"
    if d: "evs = pre @ Called oc # post" for pre oc post
  proof -
    from c d have k: "attempts pre \<le> 3" by simp
    have w: "int64 (n * defaultRetryDelay) = n * (100 * Millisecond)" if "1 \<le> n" "n \<le> 3" for n
    proof -
      have "0 \<le> n * 100000000" "n * 100000000 \<le> 300000000" using that by simp_all
      then show ?thesis
        by (simp add: int64_id defaultRetryDelay_def Millisecond_def)
    qed
    from s d have
      a: "attempts pre = 0 \<longrightarrow> pre = []"
      and b: "0 < attempts pre \<longrightarrow>
                pre \<noteq> [] \<and> last pre = Sleep (int64 (int (attempts pre) * defaultRetryDelay))"
      and e: "sleeps pre = map (\<lambda>n. int64 (n * defaultRetryDelay)) [1 .. int (attempts pre)]"
      by (auto simp: schedule_def)
    have "map (\<lambda>n. int64 (n * defaultRetryDelay)) [1 .. int (attempts pre)]
            = map (\<lambda>n. n * (100 * Millisecond)) [1 .. int (attempts pre)]"
      using k by (intro map_cong refl w) auto
    with a b e w [of "int (attempts pre)"] k show ?thesis by auto
  qed
  with t show ?thesis by blast
qed

theorem backoff_schedule_witness:
  "\<exists>evs. trace (snd (retryableAPICall
                       (scripted [(Some (createMockResponse 500 ''server error'' 7), None)])
                       defaultMaxRetries isRetryable fresh)) = evs \<and>
     take 0 evs = [] \<and>
     last (take 3 evs) = Sleep (100 * Millisecond) \<and>
     last (take 6 evs) = Sleep (200 * Millisecond) \<and>
     last (take 9 evs) = Sleep (300 * Millisecond) \<and>
     sleeps (take 9 evs) = [100 * Millisecond, 200 * Millisecond, 300 * Millisecond]"
proof -
  let ?r = "(Some (createMockResponse 500 ''server error'' 7), None) :: outcome"
  from backoff_schedule [of "scripted [?r]" isRetryable fresh] obtain evs where
    t: "trace (snd (retryableAPICall (scripted [?r]) defaultMaxRetries isRetryable fresh))
          = trace fresh @ evs"
    and s: "\<And>pre oc post. evs = pre @ Called oc # post \<Longrightarrow>
        (attempts pre = 0 \<longrightarrow> pre = []) \<and>
        (1 \<le> attempts pre \<longrightarrow>
           pre \<noteq> [] \<and> last pre = Sleep (int (attempts pre) * (100 * Millisecond))) \<and>
        sleeps pre = map (\<lambda>n. n * (100 * Millisecond)) [1 .. int (attempts pre)]"
    by blast
  from t run_500s have e: "evs = [Called ?r, Close 7, Sleep 100000000,
                                  Called ?r, Close 7, Sleep 200000000,
                                  Called ?r, Close 7, Sleep 300000000,
                                  Called ?r, Close 7]"
    by (simp add: fresh_def)
  have "evs = take 0 evs @ Called ?r # drop 1 evs" by (simp add: e)
  from s [OF this] have a0: "take 0 evs = []" by simp
  have "evs = take 3 evs @ Called ?r # drop 4 evs" by (simp add: e)
  from s [OF this] have a1: "last (take 3 evs) = Sleep (100 * Millisecond)" by (simp add: e)
  have "evs = take 6 evs @ Called ?r # drop 7 evs" by (simp add: e)
  from s [OF this] have a2: "last (take 6 evs) = Sleep (200 * Millisecond)" by (simp add: e)
  have "evs = take 9 evs @ Called ?r # drop 10 evs" by (simp add: e)
  from s [OF this] have a3: "last (take 9 evs) = Sleep (300 * Millisecond)"
    and a4: "sleeps (take 9 evs) = [100 * Millisecond, 200 * Millisecond, 300 * Millisecond]"
    by (simp_all add: e upto.simps)
  from t a0 a1 a2 a3 a4 show ?thesis by (simp add: fresh_def)
qed



text \<open>
  Claim C6. When the first attempt answers with status 200 and a readable body, getData
  returns no error and exactly one attempt is made: the run consists of that one call of
  the client, the read of the body, the line printed and the close of the body, and
  the client is left in the state after one call.
\<close>

theorem getData_ok:
  assumes "httpClient_Get h url (fn_state w) = ((Some r, None), s')"
    and "StatusCode r = 200" and "ReadAll (Body r) = Inr body"
  shows "\<exists>w' evs. getData h url w = (Inr None, w') \<and>
           trace w' = trace w @ evs \<and> attempts evs = 1 \<and>
           fn_state w' = s' \<and>
           evs = [Called (Some r, None),
                  Read (stream_id (Body r)),
                  Printf (''Received '' @ show_int (int (length body)) @ '' bytes of data''
                          @ [CHR 0x0A]),
                  Close (stream_id (Body r))]"
proof -
  from handler_first_terminal [OF assms(1)] assms(2)
  have "retryableAPICall (httpClient_Get h url) defaultMaxRetries isRetryable w =
          ((Some r, None), \<lparr>fn_state = s', trace = trace w @ [Called (Some r, None)]\<rparr>)"
    by simp
  with assms(2,3) show ?thesis
    by (simp add: getData_def StatusOK_def)
qed

theorem getData_ok_witness:
  "\<exists>w' evs.
     getData (mockHandler [(Some (createMockResponse 200 ''success'' 2), None)]) testURL fresh
       = (Inr None, w') \<and>
     trace w' = evs \<and> attempts evs = 1 \<and> fn_state w' = 1 \<and>
     evs = [Called (Some (createMockResponse 200 ''success'' 2), None), Read 2,
            Printf (''Received 7 bytes of data'' @ [CHR 0x0A]), Close 2]"
  using getData_ok
    [where h = "mockHandler [(Some (createMockResponse 200 ''success'' 2), None)]"
       and url = testURL and w = fresh and r = "createMockResponse 200 ''success'' 2"
       and s' = 1 and body = "''success''"]
  by (auto simp: createMockResponse_def mockHandler_def scripted_def fresh_def fmt_simps)





text \<open>
  Claim C9. In every run of getData, each response that a call of the attempt function
  produced has its body closed later in the same run; when that response was retryable,
  the close is the very next event, before any further attempt and before the return.
  The same holds for the controller alone, with any predicate: a response it discards
  as retryable is closed by the event that follows the call.
\<close>

theorem bodies_closed:
  "(\<exists>evs. trace (snd (getData h url w)) = trace w @ evs \<and>
      (\<forall>pre r e post. evs = pre @ Called (Some r, e) # post \<longrightarrow>
         Close (stream_id (Body r)) \<in> set post \<and>
         (isRetryable (Some r) e \<longrightarrow> (\<exists>post'. post = Close (stream_id (Body r)) # post')))) \<and>
   (\<exists>evs. trace (snd (retryableAPICall fn R isR v)) = trace v @ evs \<and>
      (\<forall>pre r e post. evs = pre @ Called (Some r, e) # post \<and> isR (Some r) e \<longrightarrow>
         (\<exists>post'. post = Close (stream_id (Body r)) # post')))"
proof (rule conjI)
  from retryableAPICall_run [of fn R isR v] obtain evs where
    t: "trace (snd (retryableAPICall fn R isR v)) = trace v @ evs"
    and r: "loop_run isR R 0 None (fst (retry_loop fn R isR 0 None v)) evs"
    by blast
  from loop_run_closed [OF r]
  have "\<forall>pre r e post. evs = pre @ Called (Some r, e) # post \<and> isR (Some r) e \<longrightarrow>
         (\<exists>post'. post = Close (stream_id (Body r)) # post')"
    unfolding closed_or_returned_def by blast
  with t show "\<exists>evs. trace (snd (retryableAPICall fn R isR v)) = trace v @ evs \<and>
      (\<forall>pre r e post. evs = pre @ Called (Some r, e) # post \<and> isR (Some r) e \<longrightarrow>
         (\<exists>post'. post = Close (stream_id (Body r)) # post'))"
    by blast
next
  let ?call = "retryableAPICall (httpClient_Get h url) defaultMaxRetries isRetryable w"
  let ?res = "fst (retry_loop (httpClient_Get h url) defaultMaxRetries isRetryable 0 None w)"
  from retryableAPICall_run [of "httpClient_Get h url" defaultMaxRetries isRetryable w]
  obtain evs where t: "trace (snd ?call) = trace w @ evs"
    and r: "loop_run isRetryable defaultMaxRetries 0 None ?res evs"
    by blast
  from getData_tail [of h url w] obtain tail where
    g: "trace (snd (getData h url w)) = trace (snd ?call) @ tail"
    and n: "attempts tail = 0"
    and c: "\<forall>r. fst ?call = (Some r, None) \<longrightarrow> Close (stream_id (Body r)) \<in> set tail"
    by blast
  have "Close (stream_id (Body r)) \<in> set post \<and>
        (isRetryable (Some r) e \<longrightarrow> (\<exists>post'. post = Close (stream_id (Body r)) # post'))"
    if d: "evs @ tail = pre @ Called (Some r, e) # post" for pre r e post
  proof -
    from no_call_suffix [OF n d] obtain post' where
      p: "post = post' @ tail" "evs = pre @ Called (Some r, e) # post'" by blast
    from loop_run_closed [OF r] p(2)
    consider (discarded) post'' where "isRetryable (Some r) e" "post' = Close (stream_id (Body r)) # post''"
      | (returned) "\<not> isRetryable (Some r) e" "post' = []" "?res = Inr (Some r, e)"
      unfolding closed_or_returned_def by blast
    then show ?thesis
    proof cases
      case discarded
      with p(1) show ?thesis by simp
    next
      case returned
      from returned(1) have "e = None" by (simp add: isRetryable_def split: if_splits)
      with returned(3) have "fst ?call = (Some r, None)"
        by (simp add: retryableAPICall_split)
      with c p(1) returned(1) show ?thesis by simp
    qed
  qed
  with t g show "\<exists>evs. trace (snd (getData h url w)) = trace w @ evs \<and>
      (\<forall>pre r e post. evs = pre @ Called (Some r, e) # post \<longrightarrow>
         Close (stream_id (Body r)) \<in> set post \<and>
         (isRetryable (Some r) e \<longrightarrow> (\<exists>post'. post = Close (stream_id (Body r)) # post')))"
    by (intro exI [of _ "evs @ tail"]) simp
qed

theorem bodies_closed_witness:
  "(\<exists>evs. trace (snd (getData
                        (mockHandler [(Some (createMockResponse 500 ''server error'' 1), None),
                                      (Some (createMockResponse 200 ''success'' 2), None)])
                        testURL fresh)) = evs \<and>
      Close 1 \<in> set (drop 1 evs) \<and> (\<exists>post'. drop 1 evs = Close 1 # post') \<and>
      Close 2 \<in> set (drop 4 evs)) \<and>
   (\<exists>evs. trace (snd (retryableAPICall
                        (scripted [(Some (createMockResponse 500 ''server error'' 7), None)])
                        defaultMaxRetries isRetryable fresh)) = evs \<and>
      (\<exists>post'. drop 10 evs = Close 7 # post'))"
proof -
  let ?r1 = "createMockResponse 500 ''server error'' 1"
  let ?r2 = "createMockResponse 200 ''success'' 2"
  let ?r7 = "createMockResponse 500 ''server error'' 7"
  let ?h = "mockHandler [(Some ?r1, None), (Some ?r2, None)]"
  from bodies_closed [of ?h testURL fresh "scripted [(Some ?r7, None)]" defaultMaxRetries
      isRetryable fresh]
  obtain evs evs' where
    t: "trace (snd (getData ?h testURL fresh)) = trace fresh @ evs"
    and c: "\<And>pre r e post. evs = pre @ Called (Some r, e) # post \<Longrightarrow>
         Close (stream_id (Body r)) \<in> set post \<and>
         (isRetryable (Some r) e \<longrightarrow> (\<exists>post'. post = Close (stream_id (Body r)) # post'))"
    and t': "trace (snd (retryableAPICall (scripted [(Some ?r7, None)]) defaultMaxRetries
                     isRetryable fresh)) = trace fresh @ evs'"
    and c': "\<And>pre r e post. evs' = pre @ Called (Some r, e) # post \<and> isRetryable (Some r) e \<Longrightarrow>
         \<exists>post'. post = Close (stream_id (Body r)) # post'"
    by blast
  from t run_mixed have e: "evs = [Called (Some ?r1, None), Close 1, Sleep 100000000,
      Called (Some ?r2, None), Read 2, Printf (''Received 7 bytes of data'' @ [CHR 0x0A]), Close 2]"
    by (simp add: fresh_def)
  from t' run_500s have e': "evs' = [Called (Some ?r7, None), Close 7, Sleep 100000000,
      Called (Some ?r7, None), Close 7, Sleep 200000000,
      Called (Some ?r7, None), Close 7, Sleep 300000000,
      Called (Some ?r7, None), Close 7]"
    by (simp add: fresh_def)
  have r1: "isRetryable (Some ?r1) None" "isRetryable (Some ?r7) None"
    by (simp_all add: isRetryable_def createMockResponse_def serverErrorThreshold_def)
  have "evs = [] @ Called (Some ?r1, None) # drop 1 evs" by (simp add: e)
  from c [OF this] r1 have a1: "Close 1 \<in> set (drop 1 evs)" "\<exists>post'. drop 1 evs = Close 1 # post'"
    by (simp_all add: createMockResponse_def)
  have "evs = take 3 evs @ Called (Some ?r2, None) # drop 4 evs" by (simp add: e)
  from c [OF this] have a2: "Close 2 \<in> set (drop 4 evs)"
    by (simp add: createMockResponse_def)
  have "evs' = take 9 evs' @ Called (Some ?r7, None) # drop 10 evs'" by (simp add: e')
  with c' [of "take 9 evs'" ?r7 None "drop 10 evs'"] r1
  have a3: "\<exists>post'. drop 10 evs' = Close 7 # post'"
    by (simp add: createMockResponse_def)
  from t t' a1 a2 a3 show ?thesis by (simp add: fresh_def)
qed

text \<open>
  Claim C10, as amended. When every attempt within the budget yields a retryable
  outcome, retryableAPICall returns no response and an error that wraps the error of
  the last attempt, after \<open>R + 1\<close> calls (none when \<open>R\<close> is negative). When call \<open>k\<close>
  is the first whose outcome is not retryable, the controller returns exactly the
  outcome of call \<open>k\<close>, and that call is the last event of the run; a response returned
  this way has no error and a status below 500, and its body is not closed at the end
  of the run provided its stream was not closed before the run and is not the stream of
  a response of an earlier call of the run. In every run, a response handed to the
  caller comes with no error, has a status below 500, and was produced by the last
  event of the run.

  As first stated the claim also said that the caller never receives a closed body.
  That fails when two responses share one stream: the controller closes the stream when
  it discards the first response, and returns the second; the run after the theorem
  shows it.
\<close>

theorem controller_result:
  "((\<forall>n. int n \<le> R \<longrightarrow> retryable_at isRetryable fn (fn_state w) n) \<longrightarrow>
      (\<exists>agg w' evs.
         retryableAPICall fn R isRetryable w = ((None, Some agg), w') \<and>
         trace w' = trace w @ evs \<and> int (attempts evs) = max 0 (R + 1) \<and>
         calls evs = map (\<lambda>n. fst (outcome_at fn (fn_state w) n)) [0..<attempts evs] \<and>
         fn_state w' = (if 0 \<le> R then snd (outcome_at fn (fn_state w) (nat R)) else fn_state w) \<and>
         Unwrap agg = (if 0 \<le> R then snd (fst (outcome_at fn (fn_state w) (nat R))) else None))) \<and>
   (int k \<le> R \<and> (\<forall>n<k. retryable_at isRetryable fn (fn_state w) n) \<and>
    \<not> retryable_at isRetryable fn (fn_state w) k \<longrightarrow>
      (\<exists>w' pre.
         retryableAPICall fn R isRetryable w = (fst (outcome_at fn (fn_state w) k), w') \<and>
         fn_state w' = snd (outcome_at fn (fn_state w) k) \<and>
         trace w' = trace w @ pre @ [Called (fst (outcome_at fn (fn_state w) k))] \<and>
         attempts pre = k \<and>
         calls pre = map (\<lambda>n. fst (outcome_at fn (fn_state w) n)) [0..<k] \<and>
         (\<forall>r. fst (fst (outcome_at fn (fn_state w) k)) = Some r \<longrightarrow>
            snd (fst (outcome_at fn (fn_state w) k)) = None \<and>
            StatusCode r < 500 \<and>
            (Close (stream_id (Body r)) \<notin> set (trace w) \<and>
             (\<forall>n<k. \<forall>r'. fst (fst (outcome_at fn (fn_state w) n)) = Some r' \<longrightarrow>
                        stream_id (Body r') \<noteq> stream_id (Body r)) \<longrightarrow>
             Close (stream_id (Body r)) \<notin> set (trace w'))))) \<and>
   (\<forall>r. fst (fst (retryableAPICall fn R isRetryable w)) = Some r \<longrightarrow>
      snd (fst (retryableAPICall fn R isRetryable w)) = None \<and>
      StatusCode r < 500 \<and>
      (\<exists>pre. trace (snd (retryableAPICall fn R isRetryable w))
               = trace w @ pre @ [Called (Some r, None)]))"
proof (intro conjI impI)
  assume a: "\<forall>n. int n \<le> R \<longrightarrow> retryable_at isRetryable fn (fn_state w) n"
  show "\<exists>agg w' evs.
         retryableAPICall fn R isRetryable w = ((None, Some agg), w') \<and>
         trace w' = trace w @ evs \<and> int (attempts evs) = max 0 (R + 1) \<and>
         calls evs = map (\<lambda>n. fst (outcome_at fn (fn_state w) n)) [0..<attempts evs] \<and>
         fn_state w' = (if 0 \<le> R then snd (outcome_at fn (fn_state w) (nat R)) else fn_state w) \<and>
         Unwrap agg = (if 0 \<le> R then snd (fst (outcome_at fn (fn_state w) (nat R))) else None)"
  proof (cases "0 \<le> R")
    case False
    then have "retry_loop fn R isRetryable 0 None w = (Inl None, w)"
      by (simp add: retry_loop_skip)
    with False show ?thesis
      by (simp add: retryableAPICall_split Errorf_w_def)
  next
    case True
    with a have "\<forall>n\<le>nat R. retryable_at isRetryable fn (fn_state w) n" by simp
    with retry_loop_exhaust_at [of 0 "nat R" R isRetryable fn w None] True
    obtain w' evs where
      l: "retry_loop fn R isRetryable 0 None w
         = (Inl (snd (fst (outcome_at fn (fn_state w) (nat R)))), w')"
      and s: "fn_state w' = snd (outcome_at fn (fn_state w) (nat R))"
      and t: "trace w' = trace w @ evs" "attempts evs = nat R + 1"
      by auto
    from retry_loop_trace_calls [of fn R isRetryable 0 None w evs] l t(1)
    have "calls evs = map (\<lambda>n. fst (outcome_at fn (fn_state w) n)) [0..<attempts evs]"
      by simp
    with True l s t show ?thesis
      by (simp add: retryableAPICall_split Errorf_w_def)
  qed
next
  let ?oc = "fst (outcome_at fn (fn_state w) k)"
  assume a: "int k \<le> R \<and> (\<forall>n<k. retryable_at isRetryable fn (fn_state w) n) \<and>
    \<not> retryable_at isRetryable fn (fn_state w) k"
  with retry_loop_exit_trace [of 0 k R isRetryable fn w None] obtain w' pre where
    l: "retry_loop fn R isRetryable 0 None w = (Inr ?oc, w')"
    and s: "fn_state w' = snd (outcome_at fn (fn_state w) k)"
    and t: "trace w' = trace w @ pre @ [Called ?oc]"
    and n: "attempts pre = k"
    and c: "\<forall>b. Close b \<in> set pre \<longrightarrow>
        (\<exists>n<k. \<exists>r'. fst (fst (outcome_at fn (fn_state w) n)) = Some r' \<and>
                     stream_id (Body r') = b)"
    by auto
  from l have res: "retryableAPICall fn R isRetryable w = (?oc, w')"
    by (simp add: retryableAPICall_split)
  from retry_loop_trace_calls [of fn R isRetryable 0 None w "pre @ [Called ?oc]"] l t n
  have cs: "calls pre = map (\<lambda>n. fst (outcome_at fn (fn_state w) n)) [0..<k]"
    by simp
  have "snd ?oc = None \<and> StatusCode r < 500 \<and>
        (Close (stream_id (Body r)) \<notin> set (trace w) \<and>
         (\<forall>n<k. \<forall>r'. fst (fst (outcome_at fn (fn_state w) n)) = Some r' \<longrightarrow>
                    stream_id (Body r') \<noteq> stream_id (Body r)) \<longrightarrow>
         Close (stream_id (Body r)) \<notin> set (trace w'))"
    if r: "fst ?oc = Some r" for r
  proof -
    from a r have "\<not> isRetryable (Some r) (snd ?oc)"
      by (simp add: retryable_at_def case_prod_unfold)
    from terminal_response [OF this] have 1: "snd ?oc = None" "StatusCode r < 500" by simp_all
    have 2: "Close (stream_id (Body r)) \<notin> set (trace w')"
      if "Close (stream_id (Body r)) \<notin> set (trace w)"
        and "\<forall>n<k. \<forall>r'. fst (fst (outcome_at fn (fn_state w) n)) = Some r' \<longrightarrow>
                    stream_id (Body r') \<noteq> stream_id (Body r)"
      using that c t by auto
    from 1 2 show ?thesis by blast
  qed
  with res s t n cs show "\<exists>w' pre.
         retryableAPICall fn R isRetryable w = (?oc, w') \<and>
         fn_state w' = snd (outcome_at fn (fn_state w) k) \<and>
         trace w' = trace w @ pre @ [Called ?oc] \<and>
         attempts pre = k \<and>
         calls pre = map (\<lambda>n. fst (outcome_at fn (fn_state w) n)) [0..<k] \<and>
         (\<forall>r. fst ?oc = Some r \<longrightarrow>
            snd ?oc = None \<and>
            StatusCode r < 500 \<and>
            (Close (stream_id (Body r)) \<notin> set (trace w) \<and>
             (\<forall>n<k. \<forall>r'. fst (fst (outcome_at fn (fn_state w) n)) = Some r' \<longrightarrow>
                        stream_id (Body r') \<noteq> stream_id (Body r)) \<longrightarrow>
             Close (stream_id (Body r)) \<notin> set (trace w')))"
    by blast
next
  let ?res = "fst (retry_loop fn R isRetryable 0 None w)"
  let ?call = "retryableAPICall fn R isRetryable w"
  from retryableAPICall_run [of fn R isRetryable w] obtain evs where
    t: "trace (snd ?call) = trace w @ evs"
    and r: "loop_run isRetryable R 0 None ?res evs"
    by blast
  show "\<forall>r. fst (fst ?call) = Some r \<longrightarrow>
      snd (fst ?call) = None \<and> StatusCode r < 500 \<and>
      (\<exists>pre. trace (snd ?call) = trace w @ pre @ [Called (Some r, None)])"
  proof (intro allI impI)
    fix r assume s: "fst (fst ?call) = Some r"
    show "snd (fst ?call) = None \<and> StatusCode r < 500 \<and>
      (\<exists>pre. trace (snd ?call) = trace w @ pre @ [Called (Some r, None)])"
    proof (cases ?res)
      case (Inl e)
      with s show ?thesis by (simp add: retryableAPICall_split)
    next
      case (Inr oc)
      obtain resp err where oc: "oc = (resp, err)" by (cases oc)
      from Inr oc s have resp: "resp = Some r" by (simp add: retryableAPICall_split)
      from loop_run_Inr [OF r, of resp err] Inr oc
      obtain pre where n: "\<not> isRetryable resp err" and p: "evs = pre @ [Called (resp, err)]"
        by auto
      from terminal_response n resp have "err = None" "StatusCode r < 500" by auto
      with Inr oc resp t p show ?thesis by (simp add: retryableAPICall_split)
    qed
  qed
qed

theorem controller_result_counterexample:
  "fst (retryableAPICall
          (scripted [(Some (createMockResponse 500 ''server error'' 7), None),
                     (Some (createMockResponse 200 ''success'' 7), None)])
          defaultMaxRetries isRetryable fresh)
     = (Some (createMockResponse 200 ''success'' 7), None) \<and>
   Close (stream_id (Body (createMockResponse 200 ''success'' 7)))
     \<in> set (trace (snd (retryableAPICall
          (scripted [(Some (createMockResponse 500 ''server error'' 7), None),
                     (Some (createMockResponse 200 ''success'' 7), None)])
          defaultMaxRetries isRetryable fresh)))"
  by (simp add: run_simps)

theorem controller_result_witness:
  "(\<exists>agg w' evs.
      retryableAPICall (scripted [(Some (createMockResponse 500 ''server error'' 7), None)])
        defaultMaxRetries isRetryable fresh = ((None, Some agg), w') \<and>
      trace w' = evs \<and> attempts evs = 4 \<and> Unwrap agg = None) \<and>
   (\<exists>w' pre.
      retryableAPICall (scripted [(Some (createMockResponse 500 ''server error'' 1), None),
                                  (Some (createMockResponse 200 ''success'' 2), None)])
        defaultMaxRetries isRetryable fresh
        = ((Some (createMockResponse 200 ''success'' 2), None), w') \<and>
      fn_state w' = 2 \<and>
      trace w' = pre @ [Called (Some (createMockResponse 200 ''success'' 2), None)] \<and>
      attempts pre = 1 \<and>
      Close 2 \<notin> set (trace w'))"
proof
  let ?r = "(Some (createMockResponse 500 ''server error'' 7), None) :: outcome"
  have "\<forall>n. int n \<le> defaultMaxRetries \<longrightarrow> retryable_at isRetryable (scripted [?r]) (fn_state fresh) n"
    by (simp add: retryable_at_def outcome_at_scripted isRetryable_def createMockResponse_def
          serverErrorThreshold_def)
  from controller_result [of defaultMaxRetries "scripted [?r]" fresh, THEN conjunct1, THEN mp,
      OF this]
  obtain agg w' evs where
    a: "retryableAPICall (scripted [?r]) defaultMaxRetries isRetryable fresh
          = ((None, Some agg), w')"
    and t: "trace w' = trace fresh @ evs"
    and n: "int (attempts evs) = max 0 (defaultMaxRetries + 1)"
    and u: "Unwrap agg =
              (if 0 \<le> defaultMaxRetries
               then snd (fst (outcome_at (scripted [?r]) (fn_state fresh) (nat defaultMaxRetries)))
               else None)"
    by blast
  from n have n': "attempts evs = 4" by (simp add: defaultMaxRetries_def)
  from u have u': "Unwrap agg = None" by (simp add: defaultMaxRetries_def outcome_at_scripted)
  from a t n' u'
  show "\<exists>agg w' evs.
      retryableAPICall (scripted [?r]) defaultMaxRetries isRetryable fresh = ((None, Some agg), w') \<and>
      trace w' = evs \<and> attempts evs = 4 \<and> Unwrap agg = None"
    by (simp add: fresh_def)
next
  let ?r1 = "createMockResponse 500 ''server error'' 1"
  let ?r2 = "createMockResponse 200 ''success'' 2"
  let ?fn = "scripted [(Some ?r1, None), (Some ?r2, None)]"
  have h: "int 1 \<le> defaultMaxRetries \<and> (\<forall>n<1. retryable_at isRetryable ?fn (fn_state fresh) n) \<and>
    \<not> retryable_at isRetryable ?fn (fn_state fresh) 1"
    by (simp add: retryable_at_def outcome_at_scripted isRetryable_def createMockResponse_def
          serverErrorThreshold_def defaultMaxRetries_def scripted_def fresh_def)
  have o: "fst (outcome_at ?fn (fn_state fresh) 1) = (Some ?r2, None)"
    "snd (outcome_at ?fn (fn_state fresh) 1) = 2"
    by (simp_all add: outcome_at_scripted scripted_def fresh_def)
  let ?oc = "fst (outcome_at ?fn (fn_state fresh) 1)"
  from controller_result [of defaultMaxRetries ?fn fresh 1, THEN conjunct2, THEN conjunct1,
      THEN mp, OF h]
  obtain w' pre where
    a0: "retryableAPICall ?fn defaultMaxRetries isRetryable fresh = (?oc, w')"
    and s0: "fn_state w' = snd (outcome_at ?fn (fn_state fresh) 1)"
    and t0: "trace w' = trace fresh @ pre @ [Called ?oc]"
    and n: "attempts pre = 1"
    and c0: "\<forall>r. fst ?oc = Some r \<longrightarrow>
            snd ?oc = None \<and>
            StatusCode r < 500 \<and>
            (Close (stream_id (Body r)) \<notin> set (trace fresh) \<and>
             (\<forall>n<1. \<forall>r'. fst (fst (outcome_at ?fn (fn_state fresh) n)) = Some r' \<longrightarrow>
                        stream_id (Body r') \<noteq> stream_id (Body r)) \<longrightarrow>
             Close (stream_id (Body r)) \<notin> set (trace w'))"
    by blast
  from a0 o have a: "retryableAPICall ?fn defaultMaxRetries isRetryable fresh = ((Some ?r2, None), w')"
    by simp
  from s0 o have s: "fn_state w' = 2" by simp
  from t0 o have t: "trace w' = trace fresh @ pre @ [Called (Some ?r2, None)]" by simp
  from c0 o have c: "Close (stream_id (Body ?r2)) \<notin> set (trace fresh) \<and>
             (\<forall>n<1. \<forall>r'. fst (fst (outcome_at ?fn (fn_state fresh) n)) = Some r' \<longrightarrow>
                        stream_id (Body r') \<noteq> stream_id (Body ?r2)) \<longrightarrow>
             Close (stream_id (Body ?r2)) \<notin> set (trace w')"
    by simp
  have "Close 2 \<notin> set (trace w')"
    using c by (simp add: outcome_at_scripted scripted_def fresh_def createMockResponse_def)
  with a s t n show "\<exists>w' pre.
      retryableAPICall ?fn defaultMaxRetries isRetryable fresh = ((Some ?r2, None), w') \<and>
      fn_state w' = 2 \<and>
      trace w' = pre @ [Called (Some ?r2, None)] \<and>
      attempts pre = 1 \<and>
      Close 2 \<notin> set (trace w')"
    by (simp add: fresh_def)
qed

end
